theory Spec2Isabelle
  imports Main "HOL-Library.Sublist"
begin

section \<open>Data model of \<open>main.ts\<close>\<close>

text \<open>
  JavaScript strings are modelled as \<^typ>\<open>string\<close>; a \<^typ>\<open>char\<close> stands for one code
  unit in the range 0..255. The \<open>operator\<close> of a logical node is kept as the string the
  parser stores at run time: the cast \<open>as LogicalOperator\<close> is erased by the compiler.
\<close>

record Variable =
  name :: string
  "value" :: string

record Condition =
  variable :: string
  negated :: bool

datatype Expression =
    ConditionExpr Condition
  | LogicalExpr string Expression Expression

record Rule =
  expression :: Expression
  result :: string

section \<open>Evaluator and rule engine (script of \<open>generateHTML\<close>)\<close>

text \<open>
  \<open>answers\<close> is the object filled from the form data: a property that was never set
  reads as \<open>undefined\<close>, modelled by \<^const>\<open>None\<close>.
\<close>

fun evaluateExpression :: "Expression \<Rightarrow> (string \<rightharpoonup> string) \<Rightarrow> bool" where
  "evaluateExpression (ConditionExpr c) answers =
     (let answer = answers (variable c)
      in if negated c then answer = Some ''no'' else answer = Some ''yes'')"
| "evaluateExpression (LogicalExpr operator l r) answers =
     (let left = evaluateExpression l answers;
          right = evaluateExpression r answers
      in if operator = ''AND'' then left \<and> right
         else if operator = ''OR'' then left \<or> right
         else False)"

text \<open>One iteration of \<open>rules.forEach\<close> on the running variable \<open>result\<close>.\<close>

definition ruleStep :: "Variable list \<Rightarrow> (string \<rightharpoonup> string) \<Rightarrow> string \<Rightarrow> Rule \<Rightarrow> string" where
  "ruleStep allResults answers res rule =
     (if evaluateExpression (expression rule) answers
      then (case find (\<lambda>r. name r = result rule) allResults of
              Some resultVar \<Rightarrow> value resultVar
            | None \<Rightarrow> res)
      else res)"

text \<open>\<open>let result = ''; rules.forEach(...)\<close>: the empty string is the absent output.\<close>

definition selectResult :: "Rule list \<Rightarrow> (string \<rightharpoonup> string) \<Rightarrow> Variable list \<Rightarrow> string" where
  "selectResult rules answers allResults = foldl (ruleStep allResults answers) [] rules"

text \<open>The rules that fire with a result name that is declared.\<close>

definition fires :: "Variable list \<Rightarrow> (string \<rightharpoonup> string) \<Rightarrow> Rule \<Rightarrow> bool" where
  "fires allResults answers rule =
     (evaluateExpression (expression rule) answers \<and>
      find (\<lambda>r. name r = result rule) allResults \<noteq> None)"

section \<open>String primitives used by the parser\<close>

text \<open>
  \<open>String.prototype.trim\<close> removes white space and line terminators from both ends;
  among the code units 0..255 these are TAB, LF, VT, FF, CR, SPACE and NBSP. The regular
  expression class \<open>\s\<close> is the same set.
\<close>

definition isWhiteSpace :: "char \<Rightarrow> bool" where
  "isWhiteSpace c =
     (c = CHR 0x09 \<or> c = CHR 0x0A \<or> c = CHR 0x0B \<or> c = CHR 0x0C \<or> c = CHR 0x0D \<or>
      c = CHR 0x20 \<or> c = CHR 0xA0)"

definition trim :: "string \<Rightarrow> string" where
  "trim s = rev (dropWhile isWhiteSpace (rev (dropWhile isWhiteSpace s)))"

text \<open>\<open>s.startsWith(search, pos)\<close>, \<open>s.endsWith(search)\<close>, \<open>s.substring(a, b)\<close> for
  \<open>a \<le> b\<close> (indices beyond the end are clamped), \<open>s.slice(1, -1)\<close>.\<close>

definition startsWith :: "string \<Rightarrow> string \<Rightarrow> nat \<Rightarrow> bool" where
  "startsWith s search pos = (take (length search) (drop pos s) = search)"

definition endsWith :: "string \<Rightarrow> string \<Rightarrow> bool" where
  "endsWith s search = (drop (length s - length search) s = search)"

definition substring :: "string \<Rightarrow> nat \<Rightarrow> nat \<Rightarrow> string" where
  "substring s a b = take (b - a) (drop a s)"

definition sliceInner :: "string \<Rightarrow> string" where
  "sliceInner s = take (length s - 2) (drop 1 s)"

text \<open>\<open>s.includes(search)\<close>: \<open>search\<close> occurs somewhere in \<open>s\<close>, letter case respected.\<close>

fun includes_str :: "string \<Rightarrow> string \<Rightarrow> bool" where
  "includes_str [] search = (search = [])"
| "includes_str (c # cs) search = (startsWith (c # cs) search 0 \<or> includes_str cs search)"

text \<open>\<open>s.replace(/NOT/i, '')\<close>: the first occurrence of N, O, T in any letter case is
  removed; the regular expression has no \<open>g\<close> flag.\<close>

definition matchNOTi :: "string \<Rightarrow> bool" where
  "matchNOTi s =
     (case s of
        a # b # c # _ \<Rightarrow>
          (a = CHR ''N'' \<or> a = CHR ''n'') \<and> (b = CHR ''O'' \<or> b = CHR ''o'') \<and>
          (c = CHR ''T'' \<or> c = CHR ''t'')
      | _ \<Rightarrow> False)"

fun replaceNOTi :: "string \<Rightarrow> string" where
  "replaceNOTi [] = []"
| "replaceNOTi (c # cs) = (if matchNOTi (c # cs) then drop 3 (c # cs) else c # replaceNOTi cs)"

section \<open>The parser (\<open>parseInput\<close>)\<close>

text \<open>Every \<open>throw new SyntaxError(...)\<close> of \<open>parseInput\<close>, with the values its message
  interpolates.\<close>

datatype error =
    InvalidCondition string
  | InvalidLogicalExpression string
  | MalformedDeclaration string nat string
  | MalformedRule nat string
  | ErrorInRule nat string error

definition parseCondition :: "string \<Rightarrow> error + Condition" where
  "parseCondition condStr =
     (let negated = includes_str condStr ''NOT'';
          variable = trim (replaceNOTi condStr)
      in if variable = [] then Inl (InvalidCondition condStr)
         else Inr \<lparr>variable = variable, negated = negated\<rparr>)"

text \<open>
  The \<open>for\<close> loop of \<open>parseExpression\<close> up to the first index at which its \<open>if\<close> fires:
  \<open>scanOperator exprStr i depth\<close> is the loop entered at index \<open>i\<close> with the counter
  \<open>depth\<close>; \<^const>\<open>None\<close> is the loop running to the end of the string.
\<close>

function scanOperator :: "string \<Rightarrow> nat \<Rightarrow> int \<Rightarrow> nat option" where
  "scanOperator exprStr i depth =
     (if i < length exprStr then
        (let char = exprStr ! i;
             depth1 = (if char = CHR ''('' then depth + 1 else depth);
             depth2 = (if char = CHR '')'' then depth1 - 1 else depth1)
         in if depth2 = 0 \<and> (startsWith exprStr ''AND'' i \<or> startsWith exprStr ''OR'' i)
            then Some i
            else scanOperator exprStr (i + 1) depth2)
      else None)"
  by pat_completeness auto
termination
  by (relation "measure (\<lambda>(exprStr, i, depth). length exprStr - i)") auto

declare scanOperator.simps [simp del]

function parseExpression :: "string \<Rightarrow> error + Expression" where
  "parseExpression s =
     (let exprStr = trim s
      in if startsWith exprStr ''('' 0 \<and> endsWith exprStr '')''
         then parseExpression (sliceInner exprStr)
         else (case scanOperator exprStr 0 0 of
                 Some i \<Rightarrow>
                   (let operator = trim (substring exprStr i (i + 3));
                        left = trim (substring exprStr 0 i);
                        right = trim (drop (i + 3) exprStr)
                    in if left = [] \<or> right = []
                       then Inl (InvalidLogicalExpression exprStr)
                       else (case parseExpression left of
                               Inl e \<Rightarrow> Inl e
                             | Inr l \<Rightarrow>
                                 (case parseExpression right of
                                    Inl e \<Rightarrow> Inl e
                                  | Inr r \<Rightarrow> Inr (LogicalExpr operator l r))))
               | None \<Rightarrow>
                   (case parseCondition exprStr of
                      Inl e \<Rightarrow> Inl e
                    | Inr c \<Rightarrow> Inr (ConditionExpr c))))"
  by pat_completeness auto
termination
proof (relation "measure length")
  have trim_le: "length (trim t) \<le> length t" for t
    unfolding trim_def
    by (metis length_dropWhile_le length_rev order_trans)
  show "wf (measure length)" by simp
  show "(sliceInner exprStr, s) \<in> measure length"
    if "exprStr = trim s" "startsWith exprStr ''('' 0 \<and> endsWith exprStr '')''"
    for s exprStr
  proof -
    from that have "exprStr \<noteq> []" by (auto simp: startsWith_def)
    then have "length (sliceInner exprStr) < length exprStr"
      by (cases exprStr) (auto simp: sliceInner_def)
    with trim_le [of s] that show ?thesis by simp
  qed
  show "(left, s) \<in> measure length"
    if "exprStr = trim s" "left = trim (substring exprStr 0 i)"
       "right = trim (drop (i + 3) exprStr)" "\<not> (left = [] \<or> right = [])"
    for s exprStr i left right
  proof -
    from that have "trim (drop (i + 3) exprStr) \<noteq> []" by simp
    then have "drop (i + 3) exprStr \<noteq> []" by (auto simp: trim_def)
    then have "i + 3 < length exprStr" by simp
    then have "length (substring exprStr 0 i) < length exprStr"
      by (simp add: substring_def)
    with trim_le [of "substring exprStr 0 i"] trim_le [of s] that show ?thesis by simp
  qed
  show "(right, s) \<in> measure length"
    if "exprStr = trim s" "right = trim (drop (i + 3) exprStr)"
       "\<not> (left = [] \<or> right = [])"
    for s exprStr i right and left :: string
  proof -
    from that have "trim (drop (i + 3) exprStr) \<noteq> []" by simp
    then have "drop (i + 3) exprStr \<noteq> []" by (auto simp: trim_def)
    then have "i + 3 < length exprStr" by simp
    then have "length (drop (i + 3) exprStr) < length exprStr" by simp
    with trim_le [of "drop (i + 3) exprStr"] trim_le [of s] that show ?thesis by simp
  qed
qed

declare parseExpression.simps [simp del]

text \<open>\<open>s.split(sep)\<close> for a separator of one character: the pieces between the
  separators, in order; a string without the separator is its only piece.\<close>

fun split_on :: "char \<Rightarrow> string \<Rightarrow> string list" where
  "split_on sep [] = [[]]"
| "split_on sep (c # cs) =
     (if c = sep then [] # split_on sep cs
      else (case split_on sep cs of
              [] \<Rightarrow> [[c]]
            | p # ps \<Rightarrow> (c # p) # ps))"

text \<open>\<open>xs.map((x, index) => ...)\<close> with a callback that may throw: the first exception
  ends the traversal.\<close>

fun mapThrow :: "('a \<Rightarrow> nat \<Rightarrow> error + 'b) \<Rightarrow> nat \<Rightarrow> 'a list \<Rightarrow> error + 'b list" where
  "mapThrow f index [] = Inr []"
| "mapThrow f index (x # xs) =
     (case f x index of
        Inl e \<Rightarrow> Inl e
      | Inr y \<Rightarrow> (case mapThrow f (index + 1) xs of Inl e \<Rightarrow> Inl e | Inr ys \<Rightarrow> Inr (y # ys)))"

text \<open>The callback of \<open>parseVariables\<close> on one line, and \<open>parseVariables\<close> itself.\<close>

definition parseDeclaration :: "string \<Rightarrow> string \<Rightarrow> nat \<Rightarrow> error + Variable" where
  "parseDeclaration blockName line index =
     (let parts = map trim (split_on (CHR ''='') line)
      in if length parts \<noteq> 2 then Inl (MalformedDeclaration blockName (index + 1) line)
         else Inr \<lparr>name = parts ! 0, value = parts ! 1\<rparr>)"

definition parseVariables :: "string \<Rightarrow> string \<Rightarrow> error + Variable list" where
  "parseVariables block blockName =
     mapThrow (parseDeclaration blockName) 0
       (filter (\<lambda>line. trim line \<noteq> []) (split_on (CHR 0x0A) block))"

subsection \<open>The regular expression of \<open>parseRules\<close>\<close>

text \<open>
  The pattern \<open>/IF\s+(.*)\s+THEN\s+(\w+)/\<close> is a sequence of literals and of greedy
  repetitions of a character class. \<open>Rep m cls captured\<close> is \<open>cls{m,}\<close>, inside a capture
  group when \<open>captured\<close> holds. A backtracking matcher tries the longest repetition first
  and gives up one character at a time; \<open>line.match\<close> tries every start index from the
  left. The result is the list of the captured groups.
\<close>

datatype atom = Lit string | Rep nat "char \<Rightarrow> bool" bool

fun matchSeq :: "atom list \<Rightarrow> string \<Rightarrow> string list option"
  and tryRep :: "atom list \<Rightarrow> string \<Rightarrow> nat \<Rightarrow> bool \<Rightarrow> nat \<Rightarrow> string list option" where
  "matchSeq [] s = Some []"
| "matchSeq (Lit l # rest) s =
     (if startsWith s l 0 then matchSeq rest (drop (length l) s) else None)"
| "matchSeq (Rep m cls captured # rest) s =
     tryRep rest s m captured (length (takeWhile cls s))"
| "tryRep rest s m captured k =
     (if k < m then None
      else (case matchSeq rest (drop k s) of
              Some groups \<Rightarrow> Some (if captured then take k s # groups else groups)
            | None \<Rightarrow> (case k of 0 \<Rightarrow> None | Suc k' \<Rightarrow> tryRep rest s m captured k')))"

declare tryRep.simps [simp del]

fun regexMatch :: "atom list \<Rightarrow> string \<Rightarrow> string list option" where
  "regexMatch re [] = matchSeq re []"
| "regexMatch re (c # cs) =
     (case matchSeq re (c # cs) of Some groups \<Rightarrow> Some groups | None \<Rightarrow> regexMatch re cs)"

text \<open>\<open>.\<close> is every character but a line terminator; \<open>\w\<close> is \<open>[A-Za-z0-9_]\<close>.\<close>

definition isDot :: "char \<Rightarrow> bool" where
  "isDot c = (c \<noteq> CHR 0x0A \<and> c \<noteq> CHR 0x0D)"

definition isWordChar :: "char \<Rightarrow> bool" where
  "isWordChar c =
     (let n = of_char c :: nat
      in (65 \<le> n \<and> n \<le> 90) \<or> (97 \<le> n \<and> n \<le> 122) \<or> (48 \<le> n \<and> n \<le> 57) \<or> n = 95)"

definition ruleRegex :: "atom list" where
  "ruleRegex =
     [Lit ''IF'', Rep 1 isWhiteSpace False, Rep 0 isDot True, Rep 1 isWhiteSpace False,
      Lit ''THEN'', Rep 1 isWhiteSpace False, Rep 1 isWordChar True]"

text \<open>The callback of \<open>parseRules\<close> on one line, and \<open>parseRules\<close> itself.\<close>

definition parseRule :: "string \<Rightarrow> nat \<Rightarrow> error + Rule" where
  "parseRule line index =
     (case regexMatch ruleRegex line of
        None \<Rightarrow> Inl (MalformedRule (index + 1) line)
      | Some groups \<Rightarrow>
          (let conditionsStr = groups ! 0;
               result = groups ! 1
           in case parseExpression conditionsStr of
                Inl e \<Rightarrow> Inl (ErrorInRule (index + 1) line e)
              | Inr ex \<Rightarrow> Inr \<lparr>expression = ex, result = result\<rparr>))"

definition parseRules :: "string \<Rightarrow> error + Rule list" where
  "parseRules block =
     mapThrow parseRule 0 (filter (\<lambda>line. trim line \<noteq> []) (split_on (CHR 0x0A) block))"

section \<open>Notions used to state the properties\<close>



text \<open>Specification of the nesting depth at an index: the opening minus the closing
  parentheses among the characters up to and including that index.\<close>

definition spec_depth :: "string \<Rightarrow> nat \<Rightarrow> int" where
  "spec_depth s i =
     int (count_list (take (i + 1) s) (CHR ''('')) - int (count_list (take (i + 1) s) (CHR '')''))"

text \<open>Specification of a top-level operator token: \<open>AND\<close> or \<open>OR\<close> starts at the index,
  at nesting depth 0.\<close>

definition spec_topLevelOperator :: "string \<Rightarrow> nat \<Rightarrow> bool" where
  "spec_topLevelOperator s i =
     (i < length s \<and> spec_depth s i = 0 \<and> (startsWith s ''AND'' i \<or> startsWith s ''OR'' i))"

text \<open>Specification of the first top-level operator token.\<close>

definition spec_firstTopLevelOperator :: "string \<Rightarrow> nat \<Rightarrow> bool" where
  "spec_firstTopLevelOperator s i =
     (spec_topLevelOperator s i \<and> list_all (\<lambda>j. \<not> spec_topLevelOperator s j) [0..<i])"


text \<open>Specification of a usable \<open>THEN\<close> token at the start of a text: white space, the
  word \<open>THEN\<close>, white space and a word. The value is the whole word after it.\<close>

definition spec_thenTail :: "string \<Rightarrow> string option" where
  "spec_thenTail w =
     (let w1 = dropWhile isWhiteSpace w;
          w2 = drop 4 w1;
          w3 = dropWhile isWhiteSpace w2
      in if w \<noteq> [] \<and> isWhiteSpace (hd w) \<and> take 4 w1 = ''THEN'' \<and>
            w2 \<noteq> [] \<and> isWhiteSpace (hd w2) \<and> w3 \<noteq> [] \<and> isWordChar (hd w3)
         then Some (takeWhile isWordChar w3)
         else None)"

text \<open>Specification of a way to read a line as a rule: \<open>IF\<close> at index \<open>p\<close>, then \<open>k\<close>
  characters of white space, then \<open>d\<close> characters of condition text without a line
  terminator, then a usable \<open>THEN\<close> token.\<close>

definition spec_ruleMatchAt :: "string \<Rightarrow> nat \<Rightarrow> nat \<Rightarrow> nat \<Rightarrow> bool" where
  "spec_ruleMatchAt line p k d =
     (startsWith line ''IF'' p \<and> 1 \<le> k \<and> p + 2 + k + d \<le> length line \<and>
      list_all isWhiteSpace (substring line (p + 2) (p + 2 + k)) \<and>
      list_all isDot (substring line (p + 2 + k) (p + 2 + k + d)) \<and>
      spec_thenTail (drop (p + 2 + k + d) line) \<noteq> None)"


section \<open>Evaluator\<close>

text \<open>
  Claim C6. For a condition node with variable \<open>v\<close> and flag \<open>n\<close>, and any answers \<open>a\<close>:
  when \<open>n\<close> is false the evaluation is true exactly when \<open>a[v]\<close> is \<open>"yes"\<close>; when \<open>n\<close> is
  true it is true exactly when \<open>a[v]\<close> is \<open>"no"\<close>; any other value of \<open>a[v]\<close>, and an
  absent \<open>v\<close>, give false under both polarities.
\<close>

theorem evaluate_condition:
  "(\<not> n \<longrightarrow>
      evaluateExpression (ConditionExpr \<lparr>variable = v, negated = n\<rparr>) a = (a v = Some ''yes''))
   \<and> (n \<longrightarrow>
      evaluateExpression (ConditionExpr \<lparr>variable = v, negated = n\<rparr>) a = (a v = Some ''no''))
   \<and> (a v \<noteq> Some ''yes'' \<and> a v \<noteq> Some ''no'' \<longrightarrow>
      \<not> evaluateExpression (ConditionExpr \<lparr>variable = v, negated = n\<rparr>) a)
   \<and> (a v = None \<longrightarrow>
      \<not> evaluateExpression (ConditionExpr \<lparr>variable = v, negated = n\<rparr>) a)"
  by simp

theorem evaluate_condition_witness:
  "evaluateExpression (ConditionExpr \<lparr>variable = ''q'', negated = True\<rparr>) [''q'' \<mapsto> ''no'']
   \<and> \<not> evaluateExpression (ConditionExpr \<lparr>variable = ''q'', negated = True\<rparr>) [''p'' \<mapsto> ''no'']
   \<and> \<not> evaluateExpression (ConditionExpr \<lparr>variable = ''q'', negated = False\<rparr>) [''q'' \<mapsto> ''maybe'']"
  using evaluate_condition [of True "''q''" "[''q'' \<mapsto> ''no'']"]
    evaluate_condition [of True "''q''" "[''p'' \<mapsto> ''no'']"]
    evaluate_condition [of False "''q''" "[''q'' \<mapsto> ''maybe'']"]
  by simp

text \<open>
  Claim C7. For all expressions \<open>L\<close>, \<open>R\<close> and answers \<open>a\<close>, a logical node with operator
  \<open>AND\<close> evaluates to the conjunction of the values of \<open>L\<close> and \<open>R\<close>, one with operator
  \<open>OR\<close> to their disjunction. \<^const>\<open>evaluateExpression\<close> is a total function on trees
  and answer mappings (its recursion is on the tree), so it returns a boolean on every
  tree and every mapping; the last conjunct is the empty mapping.
\<close>

theorem evaluate_logical:
  "evaluateExpression (LogicalExpr ''AND'' L R) a
     = (evaluateExpression L a \<and> evaluateExpression R a)
   \<and> evaluateExpression (LogicalExpr ''OR'' L R) a
     = (evaluateExpression L a \<or> evaluateExpression R a)
   \<and> evaluateExpression (LogicalExpr ''AND'' L R) Map.empty
     = (evaluateExpression L Map.empty \<and> evaluateExpression R Map.empty)"
  by simp

section \<open>Rule engine\<close>

lemma ruleStep_fires:
  "ruleStep allResults answers init rule =
     (if fires allResults answers rule
      then value (the (find (\<lambda>r. name r = result rule) allResults))
      else init)"
  by (auto simp: ruleStep_def fires_def split: option.splits)

lemma foldl_ruleStep:
  "foldl (ruleStep allResults answers) init rules =
     (if filter (fires allResults answers) rules = [] then init
      else value (the (find (\<lambda>r. name r = result (last (filter (fires allResults answers) rules)))
                        allResults)))"
proof (induction rules arbitrary: init)
  case Nil
  show ?case by simp
next
  case (Cons rule rules)
  have step: "ruleStep allResults answers init rule =
     (if fires allResults answers rule
      then value (the (find (\<lambda>r. name r = result rule) allResults))
      else init)"
    by (rule ruleStep_fires)
  have "foldl (ruleStep allResults answers) init (rule # rules)
        = foldl (ruleStep allResults answers) (ruleStep allResults answers init rule) rules"
    by simp
  also have "\<dots> = (if filter (fires allResults answers) rules = []
      then ruleStep allResults answers init rule
      else value (the (find (\<lambda>r. name r = result (last (filter (fires allResults answers) rules)))
                        allResults)))"
    by (rule Cons.IH)
  also have "\<dots> = (if filter (fires allResults answers) (rule # rules) = [] then init
      else value (the (find (\<lambda>r. name r =
                 result (last (filter (fires allResults answers) (rule # rules)))) allResults)))"
    unfolding step by simp
  finally show ?case .
qed

text \<open>
  Claim C8. The rules are visited in declaration order. A rule whose expression is false,
  and a rule whose expression is true but whose result name is not declared, leave the
  running value as it is; a rule whose expression is true and whose result name is
  declared overwrites it with the text of that result. So the output is the text named by
  the last rule that fires with a declared result, and the empty string (the absent
  output) when there is no such rule.
\<close>

theorem rule_engine_last_match:
  "(\<not> evaluateExpression (expression rule) answers \<longrightarrow>
      ruleStep allResults answers res rule = res)
   \<and> (evaluateExpression (expression rule) answers \<and>
        find (\<lambda>r. name r = result rule) allResults = None \<longrightarrow>
      ruleStep allResults answers res rule = res)
   \<and> (evaluateExpression (expression rule) answers \<and>
        find (\<lambda>r. name r = result rule) allResults = Some resultVar \<longrightarrow>
      ruleStep allResults answers res rule = value resultVar)
   \<and> selectResult [] answers allResults = []
   \<and> selectResult (rules @ [rule]) answers allResults
        = ruleStep allResults answers (selectResult rules answers allResults) rule
   \<and> (filter (fires allResults answers) rules = [] \<longrightarrow>
        selectResult rules answers allResults = [])
   \<and> (filter (fires allResults answers) rules \<noteq> [] \<and>
        find (\<lambda>r. name r = result (last (filter (fires allResults answers) rules))) allResults
          = Some lastVar \<longrightarrow>
        selectResult rules answers allResults = value lastVar)"
proof -
  have "selectResult rules answers allResults = value lastVar"
    if "filter (fires allResults answers) rules \<noteq> []"
       "find (\<lambda>r. name r = result (last (filter (fires allResults answers) rules))) allResults
          = Some lastVar"
    using that unfolding selectResult_def foldl_ruleStep by simp
  moreover have "selectResult rules answers allResults = []"
    if "filter (fires allResults answers) rules = []"
    using that unfolding selectResult_def foldl_ruleStep by simp
  ultimately show ?thesis
    by (simp add: ruleStep_def selectResult_def)
qed

theorem rule_engine_last_match_witness:
  "selectResult
     [\<lparr>expression = LogicalExpr ''AND'' (ConditionExpr \<lparr>variable = ''a'', negated = False\<rparr>)
                                       (ConditionExpr \<lparr>variable = ''b'', negated = False\<rparr>),
       result = ''r1''\<rparr>,
      \<lparr>expression = ConditionExpr \<lparr>variable = ''a'', negated = False\<rparr>, result = ''r2''\<rparr>,
      \<lparr>expression = ConditionExpr \<lparr>variable = ''a'', negated = False\<rparr>, result = ''r9''\<rparr>,
      \<lparr>expression = ConditionExpr \<lparr>variable = ''b'', negated = True\<rparr>, result = ''r1''\<rparr>]
     [''a'' \<mapsto> ''yes'', ''b'' \<mapsto> ''yes'']
     [\<lparr>name = ''r1'', value = ''Outcome1''\<rparr>, \<lparr>name = ''r2'', value = ''Outcome2''\<rparr>]
   = ''Outcome2''"
  using rule_engine_last_match
    [of _ _ _ _ _
      "[\<lparr>expression = LogicalExpr ''AND'' (ConditionExpr \<lparr>variable = ''a'', negated = False\<rparr>)
                                       (ConditionExpr \<lparr>variable = ''b'', negated = False\<rparr>),
       result = ''r1''\<rparr>,
      \<lparr>expression = ConditionExpr \<lparr>variable = ''a'', negated = False\<rparr>, result = ''r2''\<rparr>,
      \<lparr>expression = ConditionExpr \<lparr>variable = ''a'', negated = False\<rparr>, result = ''r9''\<rparr>,
      \<lparr>expression = ConditionExpr \<lparr>variable = ''b'', negated = True\<rparr>, result = ''r1''\<rparr>]"
      "\<lparr>name = ''r2'', value = ''Outcome2''\<rparr>"]
  by (simp add: fires_def)


section \<open>Expression parser on particular inputs\<close>

text \<open>
  Claim C3 at the input \<open>not x\<close>: the lower-case token is removed from the variable, and
  \<open>negated\<close> stays false, since \<open>includes('NOT')\<close> respects letter case.
\<close>

theorem parseExpression_lowercase_not:
  "parseExpression ''not x'' = Inr (ConditionExpr \<lparr>variable = ''x'', negated = False\<rparr>)"
  by code_simp

text \<open>
  Claim C4 at the input \<open>A OR(B)\<close>: the parser accepts it, and the operator of the node is
  the three characters \<open>OR(\<close>, neither \<open>AND\<close> nor \<open>OR\<close>.
\<close>

theorem parseExpression_operator_three_chars:
  "parseExpression ''A OR(B)'' =
     Inr (LogicalExpr ''OR('' (ConditionExpr \<lparr>variable = ''A'', negated = False\<rparr>)
                              (ConditionExpr \<lparr>variable = ''B)'', negated = False\<rparr>))"
  by code_simp

text \<open>
  Claim C5 at the input \<open>(A) OR (B)\<close>: the first and the last character are removed
  although they do not match each other, and the rest is parsed as one leaf.
\<close>

theorem parseExpression_unmatched_outer_parens:
  "parseExpression ''(A) OR (B)'' =
     Inr (ConditionExpr \<lparr>variable = ''A) OR (B'', negated = False\<rparr>)"
  by code_simp

section \<open>The scanning loop finds the first top-level operator\<close>

lemma spec_depth_step:
  assumes "i < length s"
  shows "spec_depth s i =
     (let d0 = int (count_list (take i s) (CHR ''('')) - int (count_list (take i s) (CHR '')''));
          d1 = (if s ! i = CHR ''('' then d0 + 1 else d0)
      in if s ! i = CHR '')'' then d1 - 1 else d1)"
  using assms by (simp add: spec_depth_def take_Suc_conv_app_nth Let_def)

lemma scanOperator_sound:
  assumes "depth = int (count_list (take i s) (CHR ''('')) - int (count_list (take i s) (CHR '')''))"
  shows "(case scanOperator s i depth of
            Some k \<Rightarrow> i \<le> k \<and> spec_topLevelOperator s k \<and>
                      (\<forall>j. i \<le> j \<and> j < k \<longrightarrow> \<not> spec_topLevelOperator s j)
          | None \<Rightarrow> (\<forall>j. i \<le> j \<longrightarrow> \<not> spec_topLevelOperator s j))"
  using assms
proof (induction s i depth rule: scanOperator.induct)
  case (1 exprStr i depth)
  show ?case
  proof (cases "i < length exprStr")
    case False
    then show ?thesis
      by (subst scanOperator.simps) (simp add: spec_topLevelOperator_def)
  next
    case True
    define depth2 where "depth2 = spec_depth exprStr i"
    have d2: "depth2 =
       (let d1 = (if exprStr ! i = CHR ''('' then depth + 1 else depth)
        in if exprStr ! i = CHR '')'' then d1 - 1 else d1)"
      unfolding depth2_def using spec_depth_step [OF True] "1.prems" by (simp add: Let_def)
    have next_depth: "depth2 = int (count_list (take (i + 1) exprStr) (CHR ''(''))
                               - int (count_list (take (i + 1) exprStr) (CHR '')''))"
      by (simp add: depth2_def spec_depth_def)
    show ?thesis
    proof (cases "depth2 = 0 \<and> (startsWith exprStr ''AND'' i \<or> startsWith exprStr ''OR'' i)")
      case fire: True
      then have "scanOperator exprStr i depth = Some i"
        using True d2 by (subst scanOperator.simps) (simp add: Let_def)
      moreover have "spec_topLevelOperator exprStr i"
        using fire True by (simp add: spec_topLevelOperator_def depth2_def)
      ultimately show ?thesis by auto
    next
      case nofire: False
      then have unfold: "scanOperator exprStr i depth = scanOperator exprStr (i + 1) depth2"
        using True d2 by (subst scanOperator.simps) (auto simp add: Let_def)
      have not_here: "\<not> spec_topLevelOperator exprStr i"
        using nofire by (simp add: spec_topLevelOperator_def depth2_def)
      have IH: "(case scanOperator exprStr (i + 1) depth2 of
            Some k \<Rightarrow> i + 1 \<le> k \<and> spec_topLevelOperator exprStr k \<and>
                      (\<forall>j. i + 1 \<le> j \<and> j < k \<longrightarrow> \<not> spec_topLevelOperator exprStr j)
          | None \<Rightarrow> (\<forall>j. i + 1 \<le> j \<longrightarrow> \<not> spec_topLevelOperator exprStr j))"
      proof (rule "1.IH" [OF True refl refl])
        show "depth2 = (if exprStr ! i = CHR '')''
                        then (if exprStr ! i = CHR ''('' then depth + 1 else depth) - 1
                        else (if exprStr ! i = CHR ''('' then depth + 1 else depth))"
          using d2 by (simp add: Let_def)
        show "\<not> (depth2 = 0 \<and> (startsWith exprStr ''AND'' i \<or> startsWith exprStr ''OR'' i))"
          by (rule nofire)
        show "depth2 = int (count_list (take (i + 1) exprStr) (CHR ''(''))
                       - int (count_list (take (i + 1) exprStr) (CHR '')''))"
          by (rule next_depth)
      qed
      show ?thesis
      proof (cases "scanOperator exprStr (i + 1) depth2")
        case None
        with IH have "\<forall>j. i + 1 \<le> j \<longrightarrow> \<not> spec_topLevelOperator exprStr j" by simp
        with not_here have "\<forall>j. i \<le> j \<longrightarrow> \<not> spec_topLevelOperator exprStr j"
          by (metis Suc_eq_plus1 Suc_leI le_neq_implies_less)
        with None unfold show ?thesis by simp
      next
        case (Some k)
        with IH have k: "i + 1 \<le> k" "spec_topLevelOperator exprStr k"
          "\<forall>j. i + 1 \<le> j \<and> j < k \<longrightarrow> \<not> spec_topLevelOperator exprStr j" by simp_all
        with not_here have "\<forall>j. i \<le> j \<and> j < k \<longrightarrow> \<not> spec_topLevelOperator exprStr j"
          by (metis Suc_eq_plus1 Suc_leI le_neq_implies_less)
        with Some unfold k show ?thesis by simp
      qed
    qed
  qed
qed

lemma scanOperator_first:
  "scanOperator s 0 0 = Some i \<longleftrightarrow> spec_firstTopLevelOperator s i"
proof -
  have snd: "(case scanOperator s 0 0 of
            Some k \<Rightarrow> spec_topLevelOperator s k \<and> (\<forall>j. j < k \<longrightarrow> \<not> spec_topLevelOperator s j)
          | None \<Rightarrow> (\<forall>j. \<not> spec_topLevelOperator s j))"
    using scanOperator_sound [of 0 0 s] by (simp split: option.splits)
  show ?thesis
  proof
    assume "scanOperator s 0 0 = Some i"
    with snd show "spec_firstTopLevelOperator s i"
      by (simp add: spec_firstTopLevelOperator_def list_all_iff)
  next
    assume first: "spec_firstTopLevelOperator s i"
    then have i: "spec_topLevelOperator s i" "\<forall>j<i. \<not> spec_topLevelOperator s j"
      by (simp_all add: spec_firstTopLevelOperator_def list_all_iff)
    show "scanOperator s 0 0 = Some i"
    proof (cases "scanOperator s 0 0")
      case None
      with snd i show ?thesis by simp
    next
      case (Some k)
      with snd have k: "spec_topLevelOperator s k" "\<forall>j<k. \<not> spec_topLevelOperator s j"
        by simp_all
      with i have "k = i" by (meson nat_neq_iff)
      with Some show ?thesis by simp
    qed
  qed
qed



text \<open>
  Claim C1 at the input \<open>(A) AND (B) OR (C)\<close>. Both \<open>AND\<close> (index 4, the first) and \<open>OR\<close>
  (index 12) are top-level tokens of the condition string, yet the parser does not split
  at \<open>AND\<close>: it removes the first and the last character, finds no operator at depth 0
  in \<open>A) AND (B) OR (C\<close> and returns that text as one leaf. On \<open>A AND B OR C\<close>, with
  \<open>AND\<close> at index 2 and \<open>OR\<close> at index 8, the split is at the first token and the result
  is \<open>A AND (B OR C)\<close>.
\<close>

theorem parseExpression_wrapped_operands:
  "spec_firstTopLevelOperator ''(A) AND (B) OR (C)'' 4
   \<and> spec_topLevelOperator ''(A) AND (B) OR (C)'' 12
   \<and> parseExpression ''(A) AND (B) OR (C)'' =
        Inr (ConditionExpr \<lparr>variable = ''A) AND (B) OR (C'', negated = False\<rparr>)
   \<and> spec_firstTopLevelOperator ''A AND B OR C'' 2
   \<and> spec_topLevelOperator ''A AND B OR C'' 8
   \<and> parseExpression ''A AND B OR C'' =
        Inr (LogicalExpr ''AND''
              (ConditionExpr \<lparr>variable = ''A'', negated = False\<rparr>)
              (LogicalExpr ''OR''
                (ConditionExpr \<lparr>variable = ''B'', negated = False\<rparr>)
                (ConditionExpr \<lparr>variable = ''C'', negated = False\<rparr>)))"
  by code_simp

section \<open>Leaves of a parsed expression\<close>


















section \<open>Declaration parser\<close>

lemma split_on_absent: "sep \<notin> set s \<Longrightarrow> split_on sep s = [s]"
  by (induction s) auto

lemma split_on_length: "length (split_on sep s) = Suc (count_list s sep)"
proof (induction s)
  case Nil
  show ?case by simp
next
  case (Cons c cs)
  then show ?case by (cases "split_on sep cs") auto
qed

lemma split_on_once:
  assumes "count_list s sep = 1"
  shows "split_on sep s =
           [takeWhile (\<lambda>x. x \<noteq> sep) s, drop 1 (dropWhile (\<lambda>x. x \<noteq> sep) s)]"
  using assms
proof (induction s)
  case Nil
  then show ?case by simp
next
  case (Cons c cs)
  show ?case
  proof (cases "c = sep")
    case True
    with Cons.prems have "count_list cs sep = 0" by simp
    then have "sep \<notin> set cs" by (simp add: count_list_0_iff)
    with True show ?thesis by (simp add: split_on_absent)
  next
    case False
    with Cons.prems have "count_list cs sep = 1" by simp
    with Cons.IH False show ?thesis by simp
  qed
qed

text \<open>
  Claim C2, as amended. A declaration line is split at every \<open>=\<close>. The line is accepted
  exactly when it contains one \<open>=\<close>; the name is then the trimmed text before it and the
  value the trimmed text after it. Every other line, with no \<open>=\<close> or with more than one,
  fails with the declaration error that carries the block name, the 1-based index and the
  line. A block that is one non-blank line is parsed by this callback at index 0.
\<close>

theorem parseDeclaration_single_equals:
  "parseDeclaration blockName line index =
     (if count_list line (CHR ''='') = 1
      then Inr \<lparr>name = trim (takeWhile (\<lambda>x. x \<noteq> CHR ''='') line),
                value = trim (drop 1 (dropWhile (\<lambda>x. x \<noteq> CHR ''='') line))\<rparr>
      else Inl (MalformedDeclaration blockName (index + 1) line))
   \<and> (CHR 0x0A \<notin> set line \<and> trim line \<noteq> [] \<longrightarrow>
        parseVariables line blockName =
          (case parseDeclaration blockName line 0 of Inl e \<Rightarrow> Inl e | Inr v \<Rightarrow> Inr [v]))"
proof -
  have one: "parseDeclaration blockName line index =
      Inr \<lparr>name = trim (takeWhile (\<lambda>x. x \<noteq> CHR ''='') line),
           value = trim (drop 1 (dropWhile (\<lambda>x. x \<noteq> CHR ''='') line))\<rparr>"
    if "count_list line (CHR ''='') = 1"
    using split_on_once [OF that] by (simp add: parseDeclaration_def)
  have other: "parseDeclaration blockName line index
                 = Inl (MalformedDeclaration blockName (index + 1) line)"
    if "count_list line (CHR ''='') \<noteq> 1"
    using that by (simp add: parseDeclaration_def split_on_length)
  have block: "parseVariables line blockName =
          (case parseDeclaration blockName line 0 of Inl e \<Rightarrow> Inl e | Inr v \<Rightarrow> Inr [v])"
    if "CHR 0x0A \<notin> set line" "trim line \<noteq> []"
    using that by (simp add: parseVariables_def split_on_absent split: sum.splits)
  from one other block show ?thesis by simp
qed

theorem parseDeclaration_single_equals_witness:
  "parseVariables ''fan_noise = Is it loud?'' ''stmt''
     = Inr [\<lparr>name = ''fan_noise'', value = ''Is it loud?''\<rparr>]"
  using parseDeclaration_single_equals [of "''stmt''" "''fan_noise = Is it loud?''" 0]
  by (simp add: trim_def isWhiteSpace_def)

text \<open>
  Claim C2 as stated fails at the line \<open>a = x = y\<close>: it is rejected, not parsed with the
  value \<open>x = y\<close>.
\<close>

theorem parseVariables_second_equals_counterexample:
  "parseVariables ''a = x = y'' ''stmt'' = Inl (MalformedDeclaration ''stmt'' 1 ''a = x = y'')"
  by code_simp

section \<open>Rule parser\<close>

lemma wordChar_not_space: "isWordChar c \<Longrightarrow> \<not> isWhiteSpace c"
  by (auto simp: isWordChar_def isWhiteSpace_def)

lemma tryRep_below: "k < m \<Longrightarrow> tryRep rest s m captured k = None"
  by (subst tryRep.simps) simp

lemma tryRep_None_iff:
  "tryRep rest s m captured n = None \<longleftrightarrow>
     (\<forall>j. m \<le> j \<and> j \<le> n \<longrightarrow> matchSeq rest (drop j s) = None)"
proof (induction n)
  case 0
  show ?case by (subst tryRep.simps) (auto split: option.splits)
next
  case (Suc n)
  show ?case
  proof (cases "Suc n < m")
    case True
    then show ?thesis by (subst tryRep.simps) auto
  next
    case False
    show ?thesis
    proof (cases "matchSeq rest (drop (Suc n) s)")
      case None
      then have "tryRep rest s m captured (Suc n) = tryRep rest s m captured n"
        using False by (subst tryRep.simps) simp
      with Suc None show ?thesis by (auto simp: le_Suc_eq)
    next
      case (Some g)
      then have "tryRep rest s m captured (Suc n) \<noteq> None"
        using False by (subst tryRep.simps) simp
      with Some False show ?thesis by (auto simp: not_less)
    qed
  qed
qed

lemma tryRep_Some_iff:
  "tryRep rest s m captured n = Some groups \<longleftrightarrow>
     (\<exists>j g. m \<le> j \<and> j \<le> n \<and> matchSeq rest (drop j s) = Some g \<and>
            (\<forall>j'. j < j' \<and> j' \<le> n \<longrightarrow> matchSeq rest (drop j' s) = None) \<and>
            groups = (if captured then take j s # g else g))"
proof (induction n)
  case 0
  show ?case by (subst tryRep.simps) (auto split: option.splits)
next
  case (Suc n)
  show ?case
  proof (cases "Suc n < m")
    case True
    then show ?thesis by (subst tryRep.simps) auto
  next
    case False
    show ?thesis
    proof (cases "matchSeq rest (drop (Suc n) s)")
      case None
      then have "tryRep rest s m captured (Suc n) = tryRep rest s m captured n"
        using False by (subst tryRep.simps) simp
      moreover have "(\<exists>j g. m \<le> j \<and> j \<le> Suc n \<and> matchSeq rest (drop j s) = Some g \<and>
            (\<forall>j'. j < j' \<and> j' \<le> Suc n \<longrightarrow> matchSeq rest (drop j' s) = None) \<and>
            groups = (if captured then take j s # g else g))
        \<longleftrightarrow> (\<exists>j g. m \<le> j \<and> j \<le> n \<and> matchSeq rest (drop j s) = Some g \<and>
            (\<forall>j'. j < j' \<and> j' \<le> n \<longrightarrow> matchSeq rest (drop j' s) = None) \<and>
            groups = (if captured then take j s # g else g))"
      proof
        assume "\<exists>j g. m \<le> j \<and> j \<le> Suc n \<and> matchSeq rest (drop j s) = Some g \<and>
            (\<forall>j'. j < j' \<and> j' \<le> Suc n \<longrightarrow> matchSeq rest (drop j' s) = None) \<and>
            groups = (if captured then take j s # g else g)"
        then obtain j g where j: "m \<le> j" "j \<le> Suc n" "matchSeq rest (drop j s) = Some g"
          "\<forall>j'. j < j' \<and> j' \<le> Suc n \<longrightarrow> matchSeq rest (drop j' s) = None"
          "groups = (if captured then take j s # g else g)" by blast
        from j(2,3) None have "j \<le> n" by (cases "j = Suc n") auto
        moreover from j(4) have "\<forall>j'. j < j' \<and> j' \<le> n \<longrightarrow> matchSeq rest (drop j' s) = None"
          by simp
        ultimately show "\<exists>j g. m \<le> j \<and> j \<le> n \<and> matchSeq rest (drop j s) = Some g \<and>
            (\<forall>j'. j < j' \<and> j' \<le> n \<longrightarrow> matchSeq rest (drop j' s) = None) \<and>
            groups = (if captured then take j s # g else g)"
          using j(1,3,5) by blast
      next
        assume "\<exists>j g. m \<le> j \<and> j \<le> n \<and> matchSeq rest (drop j s) = Some g \<and>
            (\<forall>j'. j < j' \<and> j' \<le> n \<longrightarrow> matchSeq rest (drop j' s) = None) \<and>
            groups = (if captured then take j s # g else g)"
        then obtain j g where j: "m \<le> j" "j \<le> n" "matchSeq rest (drop j s) = Some g"
          "\<forall>j'. j < j' \<and> j' \<le> n \<longrightarrow> matchSeq rest (drop j' s) = None"
          "groups = (if captured then take j s # g else g)" by blast
        from j(4) None
        have "\<forall>j'. j < j' \<and> j' \<le> Suc n \<longrightarrow> matchSeq rest (drop j' s) = None"
          by (auto simp: le_Suc_eq)
        with j(1,2,3,5) show "\<exists>j g. m \<le> j \<and> j \<le> Suc n \<and> matchSeq rest (drop j s) = Some g \<and>
            (\<forall>j'. j < j' \<and> j' \<le> Suc n \<longrightarrow> matchSeq rest (drop j' s) = None) \<and>
            groups = (if captured then take j s # g else g)"
          by (intro exI [of _ j] exI [of _ g]) simp
      qed
      ultimately show ?thesis using Suc by simp
    next
      case (Some g)
      then have t: "tryRep rest s m captured (Suc n)
                 = Some (if captured then take (Suc n) s # g else g)"
        using False by (subst tryRep.simps) simp
      have "(\<exists>j g'. m \<le> j \<and> j \<le> Suc n \<and> matchSeq rest (drop j s) = Some g' \<and>
            (\<forall>j'. j < j' \<and> j' \<le> Suc n \<longrightarrow> matchSeq rest (drop j' s) = None) \<and>
            groups = (if captured then take j s # g' else g'))
        \<longleftrightarrow> groups = (if captured then take (Suc n) s # g else g)"
      proof
        assume "\<exists>j g'. m \<le> j \<and> j \<le> Suc n \<and> matchSeq rest (drop j s) = Some g' \<and>
            (\<forall>j'. j < j' \<and> j' \<le> Suc n \<longrightarrow> matchSeq rest (drop j' s) = None) \<and>
            groups = (if captured then take j s # g' else g')"
        then obtain j g' where j: "j \<le> Suc n" "matchSeq rest (drop j s) = Some g'"
          "\<forall>j'. j < j' \<and> j' \<le> Suc n \<longrightarrow> matchSeq rest (drop j' s) = None"
          "groups = (if captured then take j s # g' else g')" by blast
        from j(1,3) Some have "j = Suc n"
          by (metis le_neq_implies_less option.distinct(1) order_refl)
        with j Some show "groups = (if captured then take (Suc n) s # g else g)" by simp
      next
        assume "groups = (if captured then take (Suc n) s # g else g)"
        with Some False show "\<exists>j g'. m \<le> j \<and> j \<le> Suc n \<and> matchSeq rest (drop j s) = Some g' \<and>
            (\<forall>j'. j < j' \<and> j' \<le> Suc n \<longrightarrow> matchSeq rest (drop j' s) = None) \<and>
            groups = (if captured then take j s # g' else g')"
          by (intro exI [of _ "Suc n"] exI [of _ g]) (auto simp: not_less)
      qed
      with t show ?thesis by auto
    qed
  qed
qed

lemma regexMatch_None_iff:
  "regexMatch re s = None \<longleftrightarrow> (\<forall>p. p \<le> length s \<longrightarrow> matchSeq re (drop p s) = None)"
proof (induction s)
  case Nil
  show ?case by simp
next
  case (Cons c cs)
  show ?case
  proof (cases "matchSeq re (c # cs)")
    case None
    have "(\<forall>p. p \<le> length (c # cs) \<longrightarrow> matchSeq re (drop p (c # cs)) = None)
          \<longleftrightarrow> (\<forall>p. p \<le> length cs \<longrightarrow> matchSeq re (drop p cs) = None)"
    proof
      assume a: "\<forall>p. p \<le> length (c # cs) \<longrightarrow> matchSeq re (drop p (c # cs)) = None"
      show "\<forall>p. p \<le> length cs \<longrightarrow> matchSeq re (drop p cs) = None"
      proof (intro allI impI)
        fix p assume "p \<le> length cs"
        with a [rule_format, of "Suc p"] show "matchSeq re (drop p cs) = None" by simp
      qed
    next
      assume a: "\<forall>p. p \<le> length cs \<longrightarrow> matchSeq re (drop p cs) = None"
      show "\<forall>p. p \<le> length (c # cs) \<longrightarrow> matchSeq re (drop p (c # cs)) = None"
      proof (intro allI impI)
        fix p assume "p \<le> length (c # cs)"
        with a None show "matchSeq re (drop p (c # cs)) = None" by (cases p) simp_all
      qed
    qed
    with None Cons show ?thesis by simp
  next
    case (Some g)
    then have "regexMatch re (c # cs) \<noteq> None" by simp
    moreover from Some have "\<not> (\<forall>p. p \<le> length (c # cs) \<longrightarrow> matchSeq re (drop p (c # cs)) = None)"
      by (auto intro: exI [of _ 0])
    ultimately show ?thesis by blast
  qed
qed

lemma regexMatch_Some_iff:
  "regexMatch re s = Some groups \<longleftrightarrow>
     (\<exists>p. p \<le> length s \<and> matchSeq re (drop p s) = Some groups \<and>
          (\<forall>p'. p' < p \<longrightarrow> matchSeq re (drop p' s) = None))"
proof (induction s)
  case Nil
  show ?case by auto
next
  case (Cons c cs)
  show ?case
  proof (cases "matchSeq re (c # cs)")
    case None
    have "(\<exists>p. p \<le> length (c # cs) \<and> matchSeq re (drop p (c # cs)) = Some groups \<and>
            (\<forall>p'. p' < p \<longrightarrow> matchSeq re (drop p' (c # cs)) = None))
          \<longleftrightarrow> (\<exists>p. p \<le> length cs \<and> matchSeq re (drop p cs) = Some groups \<and>
            (\<forall>p'. p' < p \<longrightarrow> matchSeq re (drop p' cs) = None))"
    proof
      assume "\<exists>p. p \<le> length (c # cs) \<and> matchSeq re (drop p (c # cs)) = Some groups \<and>
            (\<forall>p'. p' < p \<longrightarrow> matchSeq re (drop p' (c # cs)) = None)"
      then obtain p where p: "p \<le> length (c # cs)" "matchSeq re (drop p (c # cs)) = Some groups"
        "\<forall>p'. p' < p \<longrightarrow> matchSeq re (drop p' (c # cs)) = None" by blast
      from p(2) None obtain q where q: "p = Suc q" by (cases p) auto
      have "\<forall>p'. p' < q \<longrightarrow> matchSeq re (drop p' cs) = None"
      proof (intro allI impI)
        fix p' assume "p' < q"
        with p(3) [rule_format, of "Suc p'"] q show "matchSeq re (drop p' cs) = None" by simp
      qed
      with p q show "\<exists>p. p \<le> length cs \<and> matchSeq re (drop p cs) = Some groups \<and>
            (\<forall>p'. p' < p \<longrightarrow> matchSeq re (drop p' cs) = None)"
        by (intro exI [of _ q]) simp
    next
      assume "\<exists>p. p \<le> length cs \<and> matchSeq re (drop p cs) = Some groups \<and>
            (\<forall>p'. p' < p \<longrightarrow> matchSeq re (drop p' cs) = None)"
      then obtain p where p: "p \<le> length cs" "matchSeq re (drop p cs) = Some groups"
        "\<forall>p'. p' < p \<longrightarrow> matchSeq re (drop p' cs) = None" by blast
      have "\<forall>p'. p' < Suc p \<longrightarrow> matchSeq re (drop p' (c # cs)) = None"
      proof (intro allI impI)
        fix p' assume "p' < Suc p"
        with p(3) None show "matchSeq re (drop p' (c # cs)) = None" by (cases p') simp_all
      qed
      with p show "\<exists>p. p \<le> length (c # cs) \<and> matchSeq re (drop p (c # cs)) = Some groups \<and>
            (\<forall>p'. p' < p \<longrightarrow> matchSeq re (drop p' (c # cs)) = None)"
        by (intro exI [of _ "Suc p"]) simp
    qed
    with None Cons show ?thesis by simp
  next
    case (Some g)
    have "(\<exists>p. p \<le> length (c # cs) \<and> matchSeq re (drop p (c # cs)) = Some groups \<and>
            (\<forall>p'. p' < p \<longrightarrow> matchSeq re (drop p' (c # cs)) = None))
          \<longleftrightarrow> groups = g"
    proof
      assume "\<exists>p. p \<le> length (c # cs) \<and> matchSeq re (drop p (c # cs)) = Some groups \<and>
            (\<forall>p'. p' < p \<longrightarrow> matchSeq re (drop p' (c # cs)) = None)"
      then obtain p where p: "matchSeq re (drop p (c # cs)) = Some groups"
        "\<forall>p'. p' < p \<longrightarrow> matchSeq re (drop p' (c # cs)) = None" by blast
      from p(2) Some have "p = 0" by (cases p) auto
      with p(1) Some show "groups = g" by simp
    next
      assume "groups = g"
      with Some show "\<exists>p. p \<le> length (c # cs) \<and> matchSeq re (drop p (c # cs)) = Some groups \<and>
            (\<forall>p'. p' < p \<longrightarrow> matchSeq re (drop p' (c # cs)) = None)"
        by (intro exI [of _ 0]) simp
    qed
    with Some show ?thesis by auto
  qed
qed

lemma run_le_iff: "k \<le> length (takeWhile P s) \<longleftrightarrow> k \<le> length s \<and> list_all P (take k s)"
proof (induction s arbitrary: k)
  case Nil
  show ?case by simp
next
  case (Cons c cs)
  show ?case
  proof (cases k)
    case 0
    then show ?thesis by simp
  next
    case (Suc k')
    with Cons [of k'] show ?thesis by simp
  qed
qed

lemma drop_run: "drop (length (takeWhile P s)) s = dropWhile P s"
  by (simp add: dropWhile_eq_drop)

lemma take_run: "take (length (takeWhile P s)) s = takeWhile P s"
  by (metis takeWhile_eq_take)

lemma inside_run:
  assumes "j < length (takeWhile P s)"
  shows "drop j s \<noteq> [] \<and> P (hd (drop j s))"
proof -
  from assms have j: "j < length s"
    by (meson length_takeWhile_le less_le_trans)
  then have "hd (drop j s) = s ! j" by (simp add: hd_drop_conv_nth)
  also from assms have "s ! j = takeWhile P s ! j" by (simp add: takeWhile_nth)
  finally have "hd (drop j s) \<in> set (takeWhile P s)" using assms by simp
  then have "P (hd (drop j s))" by (rule set_takeWhileD [THEN conjunct2])
  with j show ?thesis by simp
qed

lemma word_match:
  "matchSeq [Rep 1 isWordChar True] v =
     (if v \<noteq> [] \<and> isWordChar (hd v) then Some [takeWhile isWordChar v] else None)"
proof (cases "v \<noteq> [] \<and> isWordChar (hd v)")
  case True
  then have "takeWhile isWordChar v \<noteq> []" by (cases v) auto
  then have "tryRep [] v 1 True (length (takeWhile isWordChar v))
             = Some [take (length (takeWhile isWordChar v)) v]"
    by (subst tryRep.simps) (simp add: Suc_le_eq)
  with True show ?thesis by (simp add: take_run)
next
  case False
  then have "takeWhile isWordChar v = []" by (cases v) auto
  with False show ?thesis by (simp add: tryRep_below)
qed

lemma greedy_space:
  assumes "\<And>v. v \<noteq> [] \<Longrightarrow> isWhiteSpace (hd v) \<Longrightarrow> matchSeq rest v = None"
  shows "matchSeq (Rep 1 isWhiteSpace False # rest) w =
     (if w \<noteq> [] \<and> isWhiteSpace (hd w) then matchSeq rest (dropWhile isWhiteSpace w) else None)"
proof (cases "w \<noteq> [] \<and> isWhiteSpace (hd w)")
  case False
  then have "takeWhile isWhiteSpace w = []" by (cases w) auto
  with False show ?thesis by (auto simp add: tryRep_below)
next
  case True
  define n where "n = length (takeWhile isWhiteSpace w)"
  from True have n: "1 \<le> n" unfolding n_def by (cases w) auto
  have below: "matchSeq rest (drop j w) = None" if "j < n" for j
    using inside_run [of j isWhiteSpace w] that assms unfolding n_def by blast
  have top: "drop n w = dropWhile isWhiteSpace w"
    unfolding n_def by (rule drop_run)
  have "tryRep rest w 1 False n = matchSeq rest (drop n w)"
  proof (cases "matchSeq rest (drop n w)")
    case None
    with below have "\<forall>j. 1 \<le> j \<and> j \<le> n \<longrightarrow> matchSeq rest (drop j w) = None"
      by (metis le_neq_implies_less)
    then have "tryRep rest w 1 False n = None" by (simp add: tryRep_None_iff)
    with None show ?thesis by simp
  next
    case (Some g)
    with n have "tryRep rest w 1 False n = Some g"
      by (subst tryRep.simps) simp
    with Some show ?thesis by simp
  qed
  with True top show ?thesis by (simp add: n_def)
qed

lemma then_lit:
  "matchSeq (Lit ''THEN'' # rest) w1 =
     (if take 4 w1 = ''THEN'' then matchSeq rest (drop 4 w1) else None)"
proof -
  have len: "length ''THEN'' = 4" by simp
  have "startsWith w1 ''THEN'' 0 = (take 4 w1 = ''THEN'')"
    by (simp only: startsWith_def drop_0 len)
  with len show ?thesis
    by (simp only: matchSeq.simps)
qed

lemma tail_match:
  "matchSeq [Rep 1 isWhiteSpace False, Lit ''THEN'', Rep 1 isWhiteSpace False,
             Rep 1 isWordChar True] w
   = map_option (\<lambda>r. [r]) (spec_thenTail w)"
proof -
  have word_space: "matchSeq [Rep 1 isWordChar True] v = None"
    if "v \<noteq> []" "isWhiteSpace (hd v)" for v
    unfolding word_match using that wordChar_not_space [of "hd v"] by auto
  have then_space: "matchSeq [Lit ''THEN'', Rep 1 isWhiteSpace False, Rep 1 isWordChar True] v = None"
    if "v \<noteq> []" "isWhiteSpace (hd v)" for v
  proof -
    from that have "take 4 v \<noteq> ''THEN''"
      by (cases v) (auto simp: isWhiteSpace_def)
    then show ?thesis unfolding then_lit by simp
  qed
  have a: "matchSeq [Rep 1 isWhiteSpace False, Rep 1 isWordChar True] w2 =
     (if w2 \<noteq> [] \<and> isWhiteSpace (hd w2)
      then matchSeq [Rep 1 isWordChar True] (dropWhile isWhiteSpace w2) else None)" for w2
    by (rule greedy_space) (rule word_space)
  have c: "matchSeq [Rep 1 isWhiteSpace False, Lit ''THEN'', Rep 1 isWhiteSpace False,
             Rep 1 isWordChar True] w =
     (if w \<noteq> [] \<and> isWhiteSpace (hd w)
      then matchSeq [Lit ''THEN'', Rep 1 isWhiteSpace False, Rep 1 isWordChar True]
             (dropWhile isWhiteSpace w) else None)"
    by (rule greedy_space) (rule then_space)
  show ?thesis
    unfolding c then_lit a word_match spec_thenTail_def Let_def
    by (simp only: map_option_case option.simps split: if_splits) auto
qed

lemma cond_None:
  "matchSeq (Rep 0 isDot True # rest) u = None \<longleftrightarrow>
     (\<forall>d. d \<le> length u \<and> list_all isDot (take d u) \<longrightarrow> matchSeq rest (drop d u) = None)"
  by (simp add: tryRep_None_iff run_le_iff)

lemma cond_Some:
  "matchSeq (Rep 0 isDot True # rest) u = Some groups \<longleftrightarrow>
     (\<exists>d g. d \<le> length u \<and> list_all isDot (take d u) \<and> matchSeq rest (drop d u) = Some g \<and>
            (\<forall>d'. d < d' \<and> d' \<le> length u \<and> list_all isDot (take d' u) \<longrightarrow>
                  matchSeq rest (drop d' u) = None) \<and>
            groups = take d u # g)"
  by (simp add: tryRep_Some_iff run_le_iff)

lemma space_None:
  "matchSeq (Rep 1 isWhiteSpace False # rest) u = None \<longleftrightarrow>
     (\<forall>k. 1 \<le> k \<and> k \<le> length u \<and> list_all isWhiteSpace (take k u) \<longrightarrow>
          matchSeq rest (drop k u) = None)"
  by (simp add: tryRep_None_iff run_le_iff)

lemma space_Some:
  "matchSeq (Rep 1 isWhiteSpace False # rest) u = Some groups \<longleftrightarrow>
     (\<exists>k. 1 \<le> k \<and> k \<le> length u \<and> list_all isWhiteSpace (take k u) \<and>
          matchSeq rest (drop k u) = Some groups \<and>
          (\<forall>k'. k < k' \<and> k' \<le> length u \<and> list_all isWhiteSpace (take k' u) \<longrightarrow>
                matchSeq rest (drop k' u) = None))"
  by (simp add: tryRep_Some_iff run_le_iff)

lemma if_lit:
  "matchSeq (Lit ''IF'' # rest) v =
     (if startsWith v ''IF'' 0 then matchSeq rest (drop 2 v) else None)"
proof -
  have "length ''IF'' = 2" by simp
  then show ?thesis by (simp only: matchSeq.simps)
qed

lemma spec_ruleMatchAt_alt:
  "spec_ruleMatchAt line p k d \<longleftrightarrow>
     startsWith (drop p line) ''IF'' 0 \<and> 1 \<le> k \<and> k \<le> length (drop 2 (drop p line)) \<and>
     list_all isWhiteSpace (take k (drop 2 (drop p line))) \<and>
     d \<le> length (drop k (drop 2 (drop p line))) \<and>
     list_all isDot (take d (drop k (drop 2 (drop p line)))) \<and>
     spec_thenTail (drop d (drop k (drop 2 (drop p line)))) \<noteq> None"
proof -
  have "p + 2 + k + d \<le> length line \<longleftrightarrow>
        k \<le> length (drop 2 (drop p line)) \<and> d \<le> length (drop k (drop 2 (drop p line)))"
    if "1 \<le> k"
    using that by auto
  moreover have "substring line (p + 2) (p + 2 + k) = take k (drop 2 (drop p line))"
    by (simp add: substring_def add.commute)
  moreover have "substring line (p + 2 + k) (p + 2 + k + d) = take d (drop k (drop 2 (drop p line)))"
    by (simp add: substring_def add.commute add.left_commute)
  moreover have "drop (p + 2 + k + d) line = drop d (drop k (drop 2 (drop p line)))"
    by (simp add: add.commute add.left_commute)
  moreover have "startsWith line ''IF'' p = startsWith (drop p line) ''IF'' 0"
    by (simp add: startsWith_def)
  ultimately show ?thesis
    unfolding spec_ruleMatchAt_def by auto
qed

lemma at_None:
  "matchSeq ruleRegex (drop p line) = None \<longleftrightarrow> (\<forall>k d. \<not> spec_ruleMatchAt line p k d)"
proof -
  have "matchSeq ruleRegex (drop p line) = None \<longleftrightarrow>
        (startsWith (drop p line) ''IF'' 0 \<longrightarrow>
          (\<forall>k. 1 \<le> k \<and> k \<le> length (drop 2 (drop p line)) \<and>
               list_all isWhiteSpace (take k (drop 2 (drop p line))) \<longrightarrow>
            (\<forall>d. d \<le> length (drop k (drop 2 (drop p line))) \<and>
                 list_all isDot (take d (drop k (drop 2 (drop p line)))) \<longrightarrow>
               spec_thenTail (drop d (drop k (drop 2 (drop p line)))) = None)))"
  proof (cases "startsWith (drop p line) ''IF'' 0")
    case True
    then have "matchSeq ruleRegex (drop p line)
               = matchSeq [Rep 1 isWhiteSpace False, Rep 0 isDot True, Rep 1 isWhiteSpace False,
                           Lit ''THEN'', Rep 1 isWhiteSpace False, Rep 1 isWordChar True]
                   (drop 2 (drop p line))"
      unfolding ruleRegex_def if_lit by (simp only: if_True)
    with True show ?thesis
      by (simp only: space_None cond_None tail_match map_option_is_None simp_thms)
  next
    case False
    then have "matchSeq ruleRegex (drop p line) = None"
      unfolding ruleRegex_def if_lit by (simp only: if_False)
    with False show ?thesis by (simp only: simp_thms)
  qed
  also have "\<dots> \<longleftrightarrow> (\<forall>k d. \<not> spec_ruleMatchAt line p k d)"
    unfolding spec_ruleMatchAt_alt by auto
  finally show ?thesis .
qed

lemma at_Some:
  assumes "matchSeq ruleRegex (drop p line) = Some groups"
  shows "\<exists>k d r. spec_ruleMatchAt line p k d \<and>
           spec_thenTail (drop (p + 2 + k + d) line) = Some r \<and>
           groups = [substring line (p + 2 + k) (p + 2 + k + d), r] \<and>
           (\<forall>k' d'. spec_ruleMatchAt line p k' d' \<longrightarrow> k' \<le> k \<and> (k' = k \<longrightarrow> d' \<le> d))"
proof -
  let ?tail = "[Rep 1 isWhiteSpace False, Lit ''THEN'', Rep 1 isWhiteSpace False,
                Rep 1 isWordChar True]"
  let ?v = "drop 2 (drop p line)"
  from assms have start: "startsWith (drop p line) ''IF'' 0"
    and m1: "matchSeq (Rep 1 isWhiteSpace False # Rep 0 isDot True # ?tail) ?v = Some groups"
    unfolding ruleRegex_def if_lit by (auto simp del: matchSeq.simps split: if_splits)
  from m1 obtain k where k: "1 \<le> k" "k \<le> length ?v" "list_all isWhiteSpace (take k ?v)"
    and m2: "matchSeq (Rep 0 isDot True # ?tail) (drop k ?v) = Some groups"
    and kmax: "\<forall>k'. k < k' \<and> k' \<le> length ?v \<and> list_all isWhiteSpace (take k' ?v) \<longrightarrow>
                matchSeq (Rep 0 isDot True # ?tail) (drop k' ?v) = None"
    unfolding space_Some by blast
  let ?u = "drop k ?v"
  from m2 obtain d g where d: "d \<le> length ?u" "list_all isDot (take d ?u)"
    and m3: "matchSeq ?tail (drop d ?u) = Some g"
    and dmax: "\<forall>d'. d < d' \<and> d' \<le> length ?u \<and> list_all isDot (take d' ?u) \<longrightarrow>
                matchSeq ?tail (drop d' ?u) = None"
    and g: "groups = take d ?u # g"
    unfolding cond_Some by blast
  from m3 obtain r where r: "spec_thenTail (drop d ?u) = Some r" "g = [r]"
    unfolding tail_match by auto
  have valid: "spec_ruleMatchAt line p k d"
    unfolding spec_ruleMatchAt_alt using start k d r by simp
  have idx: "drop (p + 2 + k + d) line = drop d ?u"
    by (simp add: add.commute add.left_commute)
  have sub: "substring line (p + 2 + k) (p + 2 + k + d) = take d ?u"
    by (simp add: substring_def add.commute add.left_commute)
  have best: "k' \<le> k \<and> (k' = k \<longrightarrow> d' \<le> d)" if "spec_ruleMatchAt line p k' d'" for k' d'
  proof -
    from that have v: "1 \<le> k'" "k' \<le> length ?v" "list_all isWhiteSpace (take k' ?v)"
      "d' \<le> length (drop k' ?v)" "list_all isDot (take d' (drop k' ?v))"
      "spec_thenTail (drop d' (drop k' ?v)) \<noteq> None"
      unfolding spec_ruleMatchAt_alt by simp_all
    from v(4,5,6) have some: "matchSeq (Rep 0 isDot True # ?tail) (drop k' ?v) \<noteq> None"
      unfolding cond_None tail_match by (auto simp: map_option_is_None)
    have "k' \<le> k"
    proof (rule ccontr)
      assume "\<not> k' \<le> k"
      with kmax v(2,3) have "matchSeq (Rep 0 isDot True # ?tail) (drop k' ?v) = None" by simp
      with some show False by simp
    qed
    moreover have "d' \<le> d" if "k' = k"
    proof (rule ccontr)
      assume "\<not> d' \<le> d"
      with dmax v(4,5) that have "matchSeq ?tail (drop d' ?u) = None" by simp
      with v(6) that show False unfolding tail_match by (simp add: map_option_is_None)
    qed
    ultimately show ?thesis by simp
  qed
  have tail: "spec_thenTail (drop (p + 2 + k + d) line) = Some r"
    using r(1) by (simp only: idx)
  have groups: "groups = [substring line (p + 2 + k) (p + 2 + k + d), r]"
    using g r(2) by (simp only: sub)
  from valid tail groups best show ?thesis
    by (intro exI [of _ k] exI [of _ d] exI [of _ r]) simp
qed

lemma ruleRegex_None:
  "regexMatch ruleRegex line = None \<longleftrightarrow> (\<forall>p k d. \<not> spec_ruleMatchAt line p k d)"
proof -
  have "\<not> spec_ruleMatchAt line p k d" if "length line < p" for p k d
    using that by (simp add: spec_ruleMatchAt_def)
  then have "(\<forall>p k d. \<not> spec_ruleMatchAt line p k d) \<longleftrightarrow>
             (\<forall>p. p \<le> length line \<longrightarrow> (\<forall>k d. \<not> spec_ruleMatchAt line p k d))"
    by (meson not_le)
  then show ?thesis
    unfolding regexMatch_None_iff at_None by simp
qed

lemma ruleRegex_Some:
  assumes "regexMatch ruleRegex line = Some groups"
  shows "\<exists>p k d r. spec_ruleMatchAt line p k d \<and>
           spec_thenTail (drop (p + 2 + k + d) line) = Some r \<and>
           groups = [substring line (p + 2 + k) (p + 2 + k + d), r] \<and>
           (\<forall>p' k' d'. spec_ruleMatchAt line p' k' d' \<longrightarrow>
              p \<le> p' \<and> (p' = p \<longrightarrow> k' \<le> k \<and> (k' = k \<longrightarrow> d' \<le> d)))"
proof -
  from assms obtain p where m: "matchSeq ruleRegex (drop p line) = Some groups"
    and first: "\<forall>p'. p' < p \<longrightarrow> matchSeq ruleRegex (drop p' line) = None"
    unfolding regexMatch_Some_iff by blast
  from at_Some [OF m] obtain k d r where kd: "spec_ruleMatchAt line p k d"
    "spec_thenTail (drop (p + 2 + k + d) line) = Some r"
    "groups = [substring line (p + 2 + k) (p + 2 + k + d), r]"
    "\<forall>k' d'. spec_ruleMatchAt line p k' d' \<longrightarrow> k' \<le> k \<and> (k' = k \<longrightarrow> d' \<le> d)"
    by blast
  have "p \<le> p' \<and> (p' = p \<longrightarrow> k' \<le> k \<and> (k' = k \<longrightarrow> d' \<le> d))"
    if "spec_ruleMatchAt line p' k' d'" for p' k' d'
  proof -
    from that have "matchSeq ruleRegex (drop p' line) \<noteq> None"
      unfolding at_None by blast
    with first have "p \<le> p'" by (meson not_le)
    with kd(4) that show ?thesis by blast
  qed
  with kd(1,2,3) show ?thesis by blast
qed

text \<open>
  Claim C9, as amended. A line matches the pattern exactly when it can be read as a rule
  in some way. Among all such readings the match is the one with the leftmost \<open>IF\<close>, then
  the longest white space after it, then the longest condition text: the group \<open>(.*)\<close> is
  greedy, so the condition text handed to the expression parser runs up to the last
  usable \<open>THEN\<close> token that it can reach without crossing a line terminator, and the
  result identifier is the whole word after that token. A line that cannot be read as a
  rule is rejected with its 1-based index.
\<close>

theorem rule_condition_up_to_last_THEN:
  "(regexMatch ruleRegex line = None \<longleftrightarrow> (\<forall>p k d. \<not> spec_ruleMatchAt line p k d))
   \<and> (regexMatch ruleRegex line = None \<longrightarrow>
        parseRule line index = Inl (MalformedRule (index + 1) line))
   \<and> (regexMatch ruleRegex line = Some groups \<longrightarrow>
        (\<exists>p k d r.
           spec_ruleMatchAt line p k d \<and>
           (\<forall>p' k' d'. spec_ruleMatchAt line p' k' d' \<longrightarrow>
              p \<le> p' \<and> (p' = p \<longrightarrow> k' \<le> k \<and> (k' = k \<longrightarrow> d' \<le> d))) \<and>
           spec_thenTail (drop (p + 2 + k + d) line) = Some r \<and>
           groups = [substring line (p + 2 + k) (p + 2 + k + d), r] \<and>
           parseRule line index =
             (case parseExpression (substring line (p + 2 + k) (p + 2 + k + d)) of
                Inl e \<Rightarrow> Inl (ErrorInRule (index + 1) line e)
              | Inr ex \<Rightarrow> Inr \<lparr>expression = ex, result = r\<rparr>)))"
proof (intro conjI impI)
  show "regexMatch ruleRegex line = None \<longleftrightarrow> (\<forall>p k d. \<not> spec_ruleMatchAt line p k d)"
    by (rule ruleRegex_None)
next
  assume "regexMatch ruleRegex line = None"
  then show "parseRule line index = Inl (MalformedRule (index + 1) line)"
    by (simp add: parseRule_def)
next
  assume m: "regexMatch ruleRegex line = Some groups"
  from ruleRegex_Some [OF m] obtain p k d r where best: "spec_ruleMatchAt line p k d"
    "spec_thenTail (drop (p + 2 + k + d) line) = Some r"
    "groups = [substring line (p + 2 + k) (p + 2 + k + d), r]"
    "\<forall>p' k' d'. spec_ruleMatchAt line p' k' d' \<longrightarrow>
              p \<le> p' \<and> (p' = p \<longrightarrow> k' \<le> k \<and> (k' = k \<longrightarrow> d' \<le> d))"
    by blast
  have "parseRule line index =
             (case parseExpression (substring line (p + 2 + k) (p + 2 + k + d)) of
                Inl e \<Rightarrow> Inl (ErrorInRule (index + 1) line e)
              | Inr ex \<Rightarrow> Inr \<lparr>expression = ex, result = r\<rparr>)"
    unfolding parseRule_def m best(3) by (simp add: Let_def)
  with best show "\<exists>p k d r.
           spec_ruleMatchAt line p k d \<and>
           (\<forall>p' k' d'. spec_ruleMatchAt line p' k' d' \<longrightarrow>
              p \<le> p' \<and> (p' = p \<longrightarrow> k' \<le> k \<and> (k' = k \<longrightarrow> d' \<le> d))) \<and>
           spec_thenTail (drop (p + 2 + k + d) line) = Some r \<and>
           groups = [substring line (p + 2 + k) (p + 2 + k + d), r] \<and>
           parseRule line index =
             (case parseExpression (substring line (p + 2 + k) (p + 2 + k + d)) of
                Inl e \<Rightarrow> Inl (ErrorInRule (index + 1) line e)
              | Inr ex \<Rightarrow> Inr \<lparr>expression = ex, result = r\<rparr>)"
    by (intro exI [of _ p] exI [of _ k] exI [of _ d] exI [of _ r]) simp
qed

theorem rule_condition_up_to_last_THEN_witness:
  "parseRule ''    IF x THEN y AND z THEN out # note'' 0 =
     Inr \<lparr>expression =
            LogicalExpr ''AND'' (ConditionExpr \<lparr>variable = ''x THEN y'', negated = False\<rparr>)
                                (ConditionExpr \<lparr>variable = ''z'', negated = False\<rparr>),
          result = ''out''\<rparr>
   \<and> regexMatch ruleRegex ''IF a THEN'' = None
   \<and> parseRule ''IF a THEN'' 4 = Inl (MalformedRule 5 ''IF a THEN'')"
proof -
  have m: "regexMatch ruleRegex ''    IF x THEN y AND z THEN out # note''
           = Some [''x THEN y AND z'', ''out'']"
    by code_simp
  have e: "parseExpression ''x THEN y AND z'' =
     Inr (LogicalExpr ''AND'' (ConditionExpr \<lparr>variable = ''x THEN y'', negated = False\<rparr>)
                                (ConditionExpr \<lparr>variable = ''z'', negated = False\<rparr>))"
    by code_simp
  have n: "regexMatch ruleRegex ''IF a THEN'' = None"
    by code_simp
  from rule_condition_up_to_last_THEN
         [of "''    IF x THEN y AND z THEN out # note''" 0 "[''x THEN y AND z'', ''out'']"] m
  have "parseRule ''    IF x THEN y AND z THEN out # note'' 0 =
          (case parseExpression ''x THEN y AND z'' of
             Inl e \<Rightarrow> Inl (ErrorInRule (0 + 1) ''    IF x THEN y AND z THEN out # note'' e)
           | Inr ex \<Rightarrow> Inr \<lparr>expression = ex, result = ''out''\<rparr>)"
    by auto
  moreover from rule_condition_up_to_last_THEN [of "''IF a THEN''" 4] n
  have "parseRule ''IF a THEN'' 4 = Inl (MalformedRule 5 ''IF a THEN'')"
    by simp
  ultimately show ?thesis using e n by simp
qed

text \<open>
  Claim C9 as stated fails at the line \<open>IF a THEN b THEN c\<close>: the condition is
  \<open>a THEN b\<close>, not the text before the first \<open>THEN\<close>, and the result is \<open>c\<close>.
\<close>

theorem parseRule_first_THEN_counterexample:
  "parseRule ''IF a THEN b THEN c'' 0 =
     Inr \<lparr>expression = ConditionExpr \<lparr>variable = ''a THEN b'', negated = False\<rparr>,
          result = ''c''\<rparr>"
  by code_simp

end
